theory Spec2Isabelle
  imports Main "HOL-Library.Word"
begin

section \<open>Raster images\<close>

text \<open>
  The program works on Pillow images. An image has a mode, a width, a height and a
  buffer of pixels with 8-bit channels. A pixel is stored as four bytes in both modes
  the program uses: in mode RGBA the fourth byte is the alpha channel, in mode RGB it
  is padding, kept at 255 here. The buffer is a list of rows, each a list of pixels.
\<close>

type_synonym byte = "8 word"

type_synonym pixel = "byte \<times> byte \<times> byte \<times> byte"

datatype mode = RGB | RGBA

record image =
  mode :: mode
  width :: nat
  height :: nat
  rows :: "pixel list list"

datatype py_error = IndexError | ValueError | ZeroDivisionError

definition red :: "pixel \<Rightarrow> byte" where
  "red p = fst p"

definition green :: "pixel \<Rightarrow> byte" where
  "green p = fst (snd p)"

definition blue :: "pixel \<Rightarrow> byte" where
  "blue p = fst (snd (snd p))"

definition alpha :: "pixel \<Rightarrow> byte" where
  "alpha p = snd (snd (snd p))"

text \<open>An image of the given size whose pixel at column x, row y is \<open>f x y\<close>.\<close>

definition mk_image :: "mode \<Rightarrow> nat \<Rightarrow> nat \<Rightarrow> (nat \<Rightarrow> nat \<Rightarrow> pixel) \<Rightarrow> image" where
  "mk_image m w h f =
     \<lparr>mode = m, width = w, height = h,
      rows = map (\<lambda>y. map (\<lambda>x. f x y) [0..<w]) [0..<h]\<rparr>"

text \<open>The pixel at column x, row y; None outside the image.\<close>

definition getpixel :: "image \<Rightarrow> int \<Rightarrow> int \<Rightarrow> pixel option" where
  "getpixel im x y =
     (if 0 \<le> x \<and> x < int (width im) \<and> 0 \<le> y \<and> y < int (height im)
      then Some (rows im ! nat y ! nat x) else None)"

text \<open>
  \<^verbatim>\<open>Image.new(mode, (W, H), color)\<close>: an image filled with one colour. Pillow
  raises ValueError for a negative width or height.
\<close>

definition new_image :: "mode \<Rightarrow> int \<Rightarrow> int \<Rightarrow> pixel \<Rightarrow> py_error + image" where
  "new_image m w h c =
     (if w < 0 \<or> h < 0 then Inl ValueError
      else Inr (mk_image m (nat w) (nat h) (\<lambda>x y. c)))"

text \<open>
  \<^verbatim>\<open>im.crop((left, upper, right, lower))\<close>: a new image of size
  (right - left, lower - upper) holding that rectangle of the source; a position of the
  rectangle outside the source is filled with zero bytes. Pillow raises ValueError when
  right < left or lower < upper.
\<close>

definition crop :: "image \<Rightarrow> int \<times> int \<times> int \<times> int \<Rightarrow> py_error + image" where
  "crop im box =
     (case box of (left, upper, right, lower) \<Rightarrow>
        if right < left \<or> lower < upper then Inl ValueError
        else Inr (mk_image (mode im) (nat (right - left)) (nat (lower - upper))
               (\<lambda>i j. case getpixel im (left + int i) (upper + int j) of
                         None \<Rightarrow> (0, 0, 0, 0)
                       | Some p \<Rightarrow> p)))"

text \<open>
  \<^verbatim>\<open>dst.paste(src, (x, y))\<close> for two images of the same mode: the source
  replaces the destination's pixels in the rectangle whose upper left corner is (x, y),
  clipped to the destination. The destination keeps its size.
\<close>

definition paste :: "image \<Rightarrow> image \<Rightarrow> int \<times> int \<Rightarrow> image" where
  "paste dst src pos =
     (case pos of (x0, y0) \<Rightarrow>
        mk_image (mode dst) (width dst) (height dst)
          (\<lambda>i j. case getpixel src (int i - x0) (int j - y0) of
                    None \<Rightarrow> rows dst ! j ! i
                  | Some p \<Rightarrow> p))"

text \<open>
  \<^verbatim>\<open>range(start, stop, step)\<close> for a step other than 0, as the list of the
  values a for loop visits. A step of 0 raises ValueError in Python; the callers below
  check it before they build the range.
\<close>

function py_range :: "int \<Rightarrow> int \<Rightarrow> int \<Rightarrow> int list" where
  "py_range start stop step =
     (if 0 < step \<and> start < stop then start # py_range (start + step) stop step
      else if step < 0 \<and> stop < start then start # py_range (start + step) stop step
      else [])"
  by pat_completeness auto
termination
  by (relation "measure (\<lambda>(start, stop, step).
        if 0 < step then nat (stop - start) else nat (start - stop))") auto

declare py_range.simps [simp del]

section \<open>The interlacer\<close>

text \<open>
  The loop body of \<^verbatim>\<open>interlace_vertical\<close> for the stripe starting at column x:
  the frame index, the right end of the stripe, the crop of that frame and the paste
  into the canvas. \<^verbatim>\<open>% N\<close> raises ZeroDivisionError for an empty frame list.
\<close>

definition vertical_step ::
    "image list \<Rightarrow> int \<Rightarrow> int \<Rightarrow> int \<Rightarrow> int \<Rightarrow> image \<Rightarrow> py_error + image" where
  "vertical_step frames W H slice_w x out =
     (let N = int (length frames) in
      if N = 0 then Inl ZeroDivisionError
      else
        let f_idx = (x div slice_w) mod N;
            x2 = min (x + slice_w) W
        in case crop (frames ! nat f_idx) (x, 0, x2, H) of
             Inl e \<Rightarrow> Inl e
           | Inr c \<Rightarrow> Inr (paste out c (x, 0)))"

text \<open>A for loop whose body may raise: the first error ends the loop.\<close>

fun for_each :: "('a \<Rightarrow> 's \<Rightarrow> py_error + 's) \<Rightarrow> 'a list \<Rightarrow> 's \<Rightarrow> py_error + 's" where
  "for_each body [] s = Inr s"
| "for_each body (x # xs) s =
     (case body x s of Inl e \<Rightarrow> Inl e | Inr s' \<Rightarrow> for_each body xs s')"

definition interlace_vertical :: "image list \<Rightarrow> int \<Rightarrow> int \<Rightarrow> int \<Rightarrow> py_error + image" where
  "interlace_vertical frames W H slice_w =
     (let slice_w = max 1 (min slice_w W) in
      case new_image RGBA W H (0, 0, 0, 0) of
        Inl e \<Rightarrow> Inl e
      | Inr out \<Rightarrow> for_each (vertical_step frames W H slice_w) (py_range 0 W slice_w) out)"

text \<open>
  The stripes of \<^verbatim>\<open>interlace_vertical\<close>, one per loop iteration: the left
  column x of the crop box and of the paste, the right end x2 of the crop box, and the
  frame index f_idx, for N frames.
\<close>

definition vertical_stripes :: "int \<Rightarrow> int \<Rightarrow> int \<Rightarrow> (int \<times> int \<times> int) list" where
  "vertical_stripes N W slice_w =
     (let slice_w = max 1 (min slice_w W) in
      map (\<lambda>x. (x, min (x + slice_w) W, (x div slice_w) mod N)) (py_range 0 W slice_w))"

text \<open>What the loop body does with one stripe: the crop box and the paste position.\<close>

definition paste_stripe :: "image list \<Rightarrow> int \<Rightarrow> int \<times> int \<times> int \<Rightarrow> image \<Rightarrow> py_error + image" where
  "paste_stripe frames H stripe out =
     (case stripe of (x, x2, f_idx) \<Rightarrow>
        (case crop (frames ! nat f_idx) (x, 0, x2, H) of
           Inl e \<Rightarrow> Inl e
         | Inr c \<Rightarrow> Inr (paste out c (x, 0))))"

text \<open>The frame index of the first stripe that holds column c.\<close>

definition stripe_frame :: "(int \<times> int \<times> int) list \<Rightarrow> int \<Rightarrow> int option" where
  "stripe_frame stripes c =
     map_option (\<lambda>(x, x2, f_idx). f_idx) (find (\<lambda>(x, x2, f_idx). x \<le> c \<and> c < x2) stripes)"

definition horizontal_step ::
    "image list \<Rightarrow> int \<Rightarrow> int \<Rightarrow> int \<Rightarrow> int \<Rightarrow> image \<Rightarrow> py_error + image" where
  "horizontal_step frames W H slice_h y out =
     (let N = int (length frames) in
      if N = 0 then Inl ZeroDivisionError
      else
        let f_idx = (y div slice_h) mod N;
            y2 = min (y + slice_h) H
        in case crop (frames ! nat f_idx) (0, y, W, y2) of
             Inl e \<Rightarrow> Inl e
           | Inr c \<Rightarrow> Inr (paste out c (0, y)))"

definition interlace_horizontal :: "image list \<Rightarrow> int \<Rightarrow> int \<Rightarrow> int \<Rightarrow> py_error + image" where
  "interlace_horizontal frames W H slice_h =
     (let slice_h = max 1 (min slice_h H) in
      case new_image RGBA W H (0, 0, 0, 0) of
        Inl e \<Rightarrow> Inl e
      | Inr out \<Rightarrow> for_each (horizontal_step frames W H slice_h) (py_range 0 H slice_h) out)"

section \<open>The mask generator\<close>

text \<open>
  \<^verbatim>\<open>make_mask\<close>. The slit image is created with the slice size as given,
  clamped from below only, so it can be wider than the mask; the paste clips it.
  \<open>new_image\<close> is taken to succeed for every size that is not negative: an image too
  large for Pillow or for the memory, which a slice size far beyond the width asks for
  here, makes the program raise where this model returns.
\<close>

definition make_mask :: "int \<Rightarrow> int \<Rightarrow> int \<Rightarrow> int \<Rightarrow> string \<Rightarrow> py_error + image" where
  "make_mask W H slice_px N direction =
     (let slice_px = max 1 slice_px;
          period = slice_px * N
      in case new_image RGBA W H (0, 0, 0, 255) of
           Inl e \<Rightarrow> Inl e
         | Inr mask_img \<Rightarrow>
             if direction = ''vertical'' then
               (case new_image RGBA slice_px H (0, 0, 0, 0) of
                  Inl e \<Rightarrow> Inl e
                | Inr slit \<Rightarrow>
                    if period = 0 then Inl ValueError
                    else for_each (\<lambda>x m. Inr (paste m slit (x, 0))) (py_range 0 W period) mask_img)
             else
               (case new_image RGBA W slice_px (0, 0, 0, 0) of
                  Inl e \<Rightarrow> Inl e
                | Inr slit \<Rightarrow>
                    if period = 0 then Inl ValueError
                    else for_each (\<lambda>y m. Inr (paste m slit (0, y))) (py_range 0 H period) mask_img))"

text \<open>Column x of an image has alpha a in every row.\<close>

definition column_alpha :: "image \<Rightarrow> nat \<Rightarrow> byte \<Rightarrow> bool" where
  "column_alpha im x a =
     list_all (\<lambda>y. map_option alpha (getpixel im (int x) (int y)) = Some a) [0..<height im]"

section \<open>The compositor\<close>

text \<open>
  Pillow blends a pasted pixel through an 8-bit mask channel by channel with integer
  arithmetic: \<^verbatim>\<open>BLEND(mask, in1, in2) = DIV255(in1 * (255 - mask) + in2 * mask)\<close>
  where \<^verbatim>\<open>DIV255(a) = (tmp = a + 128, ((tmp >> 8) + tmp) >> 8)\<close>.
\<close>

definition div255 :: "nat \<Rightarrow> nat" where
  "div255 a = (let tmp = a + 128 in (tmp div 256 + tmp) div 256)"

definition blend :: "byte \<Rightarrow> byte \<Rightarrow> byte \<Rightarrow> byte" where
  "blend m in1 in2 = of_nat (div255 (unat in1 * (255 - unat m) + unat in2 * unat m))"

text \<open>
  \<^verbatim>\<open>img.split()[-1]\<close>: the last band of an image, as rows of bytes. For an
  RGBA image it is the alpha channel.
\<close>

definition split_last :: "image \<Rightarrow> byte list list" where
  "split_last im =
     map (\<lambda>y. map (\<lambda>x. alpha (rows im ! y ! x)) [0..<width im]) [0..<height im]"

text \<open>
  \<^verbatim>\<open>dst.paste(src, mask=band)\<close>: the source is blended into the destination
  at the origin, each pixel weighted by the band's byte at its position. The fourth byte
  of an RGB destination is padding and stays as it is.
\<close>

definition paste_masked :: "image \<Rightarrow> image \<Rightarrow> byte list list \<Rightarrow> image" where
  "paste_masked dst src band =
     mk_image (mode dst) (width dst) (height dst)
       (\<lambda>i j. if i < width src \<and> j < height src then
                 (let m = band ! j ! i;
                      d = rows dst ! j ! i;
                      s = rows src ! j ! i
                  in (blend m (red d) (red s), blend m (green d) (green s),
                      blend m (blue d) (blue s),
                      if mode dst = RGB then alpha d else blend m (alpha d) (alpha s)))
               else rows dst ! j ! i)"

text \<open>\<^verbatim>\<open>img.convert("RGB")\<close>: the colour bytes are kept, the alpha channel is dropped.\<close>

definition convert_rgb :: "image \<Rightarrow> image" where
  "convert_rgb im =
     mk_image RGB (width im) (height im)
       (\<lambda>i j. let p = rows im ! j ! i in (red p, green p, blue p, 255))"

definition composite_on_white :: "image \<Rightarrow> image" where
  "composite_on_white img =
     (if mode img \<noteq> RGBA then convert_rgb img
      else
        let bg = mk_image RGB (width img) (height img) (\<lambda>i j. (255, 255, 255, 255))
        in paste_masked bg img (split_last img))"

section \<open>The size unifier\<close>

text \<open>\<^verbatim>\<open>min(...)\<close> over a generator: ValueError when it yields nothing.\<close>

fun py_min :: "nat list \<Rightarrow> py_error + nat" where
  "py_min [] = Inl ValueError"
| "py_min (x # xs) = Inr (fold min xs x)"

text \<open>
  \<^verbatim>\<open>im.resize((W, H), Image.LANCZOS)\<close>: a new image of the requested size and
  the source's mode. Pillow raises ValueError when the requested width or height is
  below 1. The resampled pixel values are those of the library's Lanczos filter, a
  parameter here.
\<close>

type_synonym resampler = "image \<Rightarrow> nat \<Rightarrow> nat \<Rightarrow> nat \<Rightarrow> nat \<Rightarrow> pixel"

definition im_resize :: "resampler \<Rightarrow> image \<Rightarrow> nat \<times> nat \<Rightarrow> py_error + image" where
  "im_resize lanczos im sz =
     (case sz of (W, H) \<Rightarrow>
        if W < 1 \<or> H < 1 then Inl ValueError
        else Inr (mk_image (mode im) W H (lanczos im W H)))"

fun unify_loop :: "resampler \<Rightarrow> nat \<Rightarrow> nat \<Rightarrow> image list \<Rightarrow> image list \<Rightarrow> py_error + image list" where
  "unify_loop lanczos W H [] out = Inr out"
| "unify_loop lanczos W H (im # imgs) out =
     (if width im \<noteq> W \<or> height im \<noteq> H then
        (case im_resize lanczos im (W, H) of
           Inl e \<Rightarrow> Inl e
         | Inr r \<Rightarrow> unify_loop lanczos W H imgs (out @ [r]))
      else unify_loop lanczos W H imgs (out @ [im]))"

definition unify_sizes ::
    "resampler \<Rightarrow> image list \<Rightarrow> string \<Rightarrow> py_error + (image list \<times> nat \<times> nat)" where
  "unify_sizes lanczos imgs mode_name =
     (case (if mode_name = ''first'' then
              (case imgs of
                 [] \<Rightarrow> Inl IndexError
               | im0 # _ \<Rightarrow> Inr (width im0, height im0))
            else
              (case py_min (map width imgs) of
                 Inl e \<Rightarrow> Inl e
               | Inr W \<Rightarrow>
                   (case py_min (map height imgs) of
                      Inl e \<Rightarrow> Inl e
                    | Inr H \<Rightarrow> Inr (W, H)))) of
        Inl e \<Rightarrow> Inl e
      | Inr (W, H) \<Rightarrow>
          (case unify_loop lanczos W H imgs [] of
             Inl e \<Rightarrow> Inl e
           | Inr out \<Rightarrow> Inr (out, W, H)))"

section \<open>The command-line run\<close>

text \<open>
  The parsed command line. \<^verbatim>\<open>--out-mask\<close> is None when the option is absent.
\<close>

record args =
  dir :: string
  recursive :: bool
  exts :: string
  slice :: int
  direction :: string
  resize :: string
  out_base :: string
  out_mask :: "string option"
  force_rgb :: bool
  white_bg :: bool

text \<open>
  What the run finds outside the program: whether the folder exists, its resolved path,
  the sorted file list \<^verbatim>\<open>collect_files\<close> returns for it, the decoder
  (\<^verbatim>\<open>Image.open(f).convert("RGBA")\<close>, with the text of the exception when it
  fails) and the resampling filter.
\<close>

record world =
  folder_exists :: bool
  folder :: string
  collected :: "string list"
  decode :: "string \<Rightarrow> string + image"
  resampling :: resampler

text \<open>
  The text handed to \<^verbatim>\<open>SystemExit\<close>, by the values it is formatted from
  (the extension list is given by the option string it is split from), and what the run
  does to the outside: the lines it prints, the directories it creates and the images
  it saves.
\<close>

datatype message =
    Folder_not_found string
  | Need_at_least_2 nat string string
  | Failed_to_open string string

datatype event =
    Print_collected nat string "string list"
  | Print_base_saved string nat nat nat int string
  | Print_mask_saved string int
  | Mkdir_parent string
  | Save string image

datatype outcome = Finished | SystemExit message | Uncaught py_error

text \<open>
  The exit status of the process: 0 after a normal return; 1 after
  \<^verbatim>\<open>SystemExit\<close> with a string argument, which the interpreter prints to the
  standard error stream, and after an uncaught exception.
\<close>

fun exit_status :: "outcome \<Rightarrow> nat" where
  "exit_status Finished = 0"
| "exit_status (SystemExit m) = 1"
| "exit_status (Uncaught e) = 1"

fun load_frames :: "(string \<Rightarrow> string + image) \<Rightarrow> string list \<Rightarrow> image list \<Rightarrow> message + image list" where
  "load_frames dec [] imgs = Inr imgs"
| "load_frames dec (f # files) imgs =
     (case dec f of
        Inl e \<Rightarrow> Inl (Failed_to_open f e)
      | Inr im \<Rightarrow> load_frames dec files (imgs @ [im]))"

text \<open>The output mode of \<^verbatim>\<open>main\<close>: white background first, otherwise forced RGB.\<close>

definition output_image :: "args \<Rightarrow> image \<Rightarrow> image" where
  "output_image a base =
     (if white_bg a then composite_on_white base
      else if force_rgb a then convert_rgb base
      else base)"

text \<open>
  The end of \<^verbatim>\<open>main\<close>: the mask is made and saved when
  \<^verbatim>\<open>args.out_mask\<close> is neither None nor the empty string.
\<close>

definition write_mask :: "args \<Rightarrow> nat \<Rightarrow> nat \<Rightarrow> nat \<Rightarrow> event list \<Rightarrow> outcome \<times> event list" where
  "write_mask a W H n evs =
     (case out_mask a of
        None \<Rightarrow> (Finished, evs)
      | Some m \<Rightarrow>
          if m = [] then (Finished, evs)
          else
            (case make_mask (int W) (int H) (slice a) (int n) (direction a) of
               Inl e \<Rightarrow> (Uncaught e, evs)
             | Inr mask_img \<Rightarrow>
                 (Finished,
                  evs @ [Mkdir_parent m, Save m mask_img, Print_mask_saved m (slice a * int n)])))"

text \<open>
  \<^verbatim>\<open>main\<close>, from the outside world and the parsed command line to the
  outcome and the list of what was printed, created and saved, in order. The output path
  is \<^verbatim>\<open>args.out_base\<close> (the namespace has no attribute named
  \<^verbatim>\<open>out-base\<close>). Creating a directory and saving an image are taken to
  succeed.
\<close>

definition main :: "world \<Rightarrow> args \<Rightarrow> outcome \<times> event list" where
  "main w a =
     (if \<not> folder_exists w then (SystemExit (Folder_not_found (folder w)), [])
      else
        let files = collected w in
        if length files < 2 then
          (SystemExit (Need_at_least_2 (length files) (folder w) (exts a)), [])
        else
          let evs = [Print_collected (length files) (folder w) files] in
          case load_frames (decode w) files [] of
            Inl m \<Rightarrow> (SystemExit m, evs)
          | Inr frames \<Rightarrow>
              (case unify_sizes (resampling w) frames (resize a) of
                 Inl e \<Rightarrow> (Uncaught e, evs)
               | Inr (frames, W, H) \<Rightarrow>
                   (case (if direction a = ''vertical''
                          then interlace_vertical frames (int W) (int H) (slice a)
                          else interlace_horizontal frames (int W) (int H) (slice a)) of
                      Inl e \<Rightarrow> (Uncaught e, evs)
                    | Inr base \<Rightarrow>
                        write_mask a W H (length frames)
                          (evs @ [Mkdir_parent (out_base a), Save (out_base a) (output_image a base),
                                  Print_base_saved (out_base a) W H (length frames) (slice a)
                                    (direction a)]))))"

section \<open>Images, ranges and loops: basic facts\<close>

lemma getpixel_mk_image:
  "getpixel (mk_image m w h f) x y =
     (if 0 \<le> x \<and> x < int w \<and> 0 \<le> y \<and> y < int h then Some (f (nat x) (nat y)) else None)"
proof -
  have "0 \<le> x \<Longrightarrow> x < int w \<Longrightarrow> 0 \<le> y \<Longrightarrow> y < int h \<Longrightarrow>
        map (\<lambda>y. map (\<lambda>x. f x y) [0..<w]) [0..<h] ! nat y ! nat x = f (nat x) (nat y)"
    by (simp add: nat_less_iff)
  then show ?thesis by (auto simp add: getpixel_def mk_image_def)
qed

lemma mk_image_sel [simp]:
  "mode (mk_image m w h f) = m" "width (mk_image m w h f) = w" "height (mk_image m w h f) = h"
  by (simp_all add: mk_image_def)

lemma getpixel_None_iff:
  "getpixel im x y = None \<longleftrightarrow> \<not> (0 \<le> x \<and> x < int (width im) \<and> 0 \<le> y \<and> y < int (height im))"
  by (simp add: getpixel_def)

lemma getpixel_paste:
  assumes "0 \<le> x" "x < int (width dst)" "0 \<le> y" "y < int (height dst)"
  shows "getpixel (paste dst src (x0, y0)) x y =
     (case getpixel src (x - x0) (y - y0) of None \<Rightarrow> getpixel dst x y | Some p \<Rightarrow> Some p)"
  using assms by (simp add: paste_def getpixel_mk_image) (simp add: getpixel_def)

lemma paste_sel [simp]:
  "mode (paste dst src pos) = mode dst" "width (paste dst src pos) = width dst"
  "height (paste dst src pos) = height dst"
  by (simp_all add: paste_def split: prod.splits)

lemma py_range_pos: "0 < step \<Longrightarrow>
  py_range start stop step = (if start < stop then start # py_range (start + step) stop step else [])"
  by (subst py_range.simps) simp

lemma set_py_range:
  "0 < step \<Longrightarrow> set (py_range start stop step) = {x. start \<le> x \<and> x < stop \<and> (x - start) mod step = 0}"
proof (induction start stop step rule: py_range.induct)
  case (1 start stop step)
  show ?case
  proof (cases "start < stop")
    case True
    have "set (py_range (start + step) stop step) = {x. start + step \<le> x \<and> x < stop \<and> (x - (start + step)) mod step = 0}"
      using 1 True by simp
    moreover have "\<And>x. (x - (start + step)) mod step = (x - start) mod step"
      by (metis diff_diff_eq mod_diff_right_eq mod_self diff_zero)
    moreover have "\<And>x. start \<le> x \<Longrightarrow> (x - start) mod step = 0 \<Longrightarrow> x \<noteq> start \<Longrightarrow> start + step \<le> x"
    proof -
      fix x assume a: "start \<le> x" "(x - start) mod step = 0" "x \<noteq> start"
      then have "step dvd (x - start)" by auto
      moreover have "0 < x - start" using a by simp
      ultimately have "step \<le> x - start" using zdvd_imp_le by blast
      then show "start + step \<le> x" by simp
    qed
    ultimately show ?thesis
      using True 1(3) by (subst py_range_pos) (auto)
  next
    case False
    then show ?thesis using 1(3) by (subst py_range_pos) auto
  qed
qed

lemma crop_ok:
  "left \<le> right \<Longrightarrow> upper \<le> lower \<Longrightarrow>
   crop im (left, upper, right, lower) =
     Inr (mk_image (mode im) (nat (right - left)) (nat (lower - upper))
           (\<lambda>i j. case getpixel im (left + int i) (upper + int j) of
                     None \<Rightarrow> (0, 0, 0, 0) | Some p \<Rightarrow> p))"
  by (simp add: crop_def)

lemma vertical_step_ok:
  assumes "frames \<noteq> []" "0 < s" "x < W" "0 \<le> H"
  shows "\<exists>out'. vertical_step frames W H s x out = Inr out' \<and>
           mode out' = mode out \<and> width out' = width out \<and> height out' = height out"
proof -
  have "x \<le> min (x + s) W" using assms by simp
  then show ?thesis using assms
    by (simp add: vertical_step_def Let_def crop_ok)
qed

lemma vertical_step_pixel:
  assumes "frames \<noteq> []" "0 < s" "0 \<le> x" "x < W" "0 \<le> H"
    and "width out = nat W" "height out = nat H"
    and "0 \<le> c" "c < W" "0 \<le> j" "j < H"
  shows "\<exists>out'. vertical_step frames W H s x out = Inr out' \<and>
           getpixel out' c j =
             (if x \<le> c \<and> c < x + s
              then Some (case getpixel (frames ! nat ((x div s) mod int (length frames))) c j of
                           None \<Rightarrow> (0, 0, 0, 0) | Some p \<Rightarrow> p)
              else getpixel out c j)"
proof -
  have le: "x \<le> min (x + s) W" using assms by simp
  show ?thesis using assms le
    by (auto simp add: vertical_step_def Let_def crop_ok getpixel_paste getpixel_mk_image
        split: option.splits)
qed

section \<open>The pixels of the vertical interlace\<close>

lemma vertical_loop:
  assumes "frames \<noteq> []" "0 \<le> H"
  shows "0 < s \<Longrightarrow> 0 \<le> a \<Longrightarrow> a mod s = 0 \<Longrightarrow> width out = nat W \<Longrightarrow> height out = nat H \<Longrightarrow>
     \<exists>out'. for_each (vertical_step frames W H s) (py_range a W s) out = Inr out' \<and>
        mode out' = mode out \<and> width out' = nat W \<and> height out' = nat H \<and>
        (\<forall>c j. 0 \<le> c \<and> c < W \<and> 0 \<le> j \<and> j < H \<longrightarrow>
           getpixel out' c j =
             (if a \<le> c
              then Some (case getpixel (frames ! nat ((c div s) mod int (length frames))) c j of
                           None \<Rightarrow> (0, 0, 0, 0) | Some p \<Rightarrow> p)
              else getpixel out c j))"
proof (induction a W s arbitrary: out rule: py_range.induct)
  case (1 a W s)
  note s = "1.prems"(1)
  show ?case
  proof (cases "a < W")
    case False
    then show ?thesis using s "1.prems" by (subst py_range_pos) auto
  next
    case True
    obtain o1 where o1: "vertical_step frames W H s a out = Inr o1"
      "mode o1 = mode out" "width o1 = width out" "height o1 = height out"
      using vertical_step_ok [OF assms(1) s True assms(2)] by blast
    have px1: "\<And>c j. 0 \<le> c \<Longrightarrow> c < W \<Longrightarrow> 0 \<le> j \<Longrightarrow> j < H \<Longrightarrow>
        getpixel o1 c j =
             (if a \<le> c \<and> c < a + s
              then Some (case getpixel (frames ! nat ((a div s) mod int (length frames))) c j of
                           None \<Rightarrow> (0, 0, 0, 0) | Some p \<Rightarrow> p)
              else getpixel out c j)"
      using vertical_step_pixel [OF assms(1) s "1.prems"(2) True assms(2) "1.prems"(4,5)] o1(1)
      by fastforce
    have m: "(a + s) mod s = 0" using "1.prems"(3) by simp
    have "\<exists>out'. for_each (vertical_step frames W H s) (py_range (a + s) W s) o1 = Inr out' \<and>
        mode out' = mode o1 \<and> width out' = nat W \<and> height out' = nat H \<and>
        (\<forall>c j. 0 \<le> c \<and> c < W \<and> 0 \<le> j \<and> j < H \<longrightarrow>
           getpixel out' c j =
             (if a + s \<le> c
              then Some (case getpixel (frames ! nat ((c div s) mod int (length frames))) c j of
                           None \<Rightarrow> (0, 0, 0, 0) | Some p \<Rightarrow> p)
              else getpixel o1 c j))"
      proof (rule "1.IH"(1))
      show "0 < s \<and> a < W" using s True by simp
      show "0 < s" by (rule s)
      show "0 \<le> a + s" using s "1.prems"(2) by simp
      show "(a + s) mod s = 0" by (rule m)
      show "width o1 = nat W" "height o1 = nat H" using o1 "1.prems" by simp_all
    qed
    then obtain o2 where o2: "for_each (vertical_step frames W H s) (py_range (a + s) W s) o1 = Inr o2"
        "mode o2 = mode o1" "width o2 = nat W" "height o2 = nat H"
        and px2: "\<And>c j. 0 \<le> c \<Longrightarrow> c < W \<Longrightarrow> 0 \<le> j \<Longrightarrow> j < H \<Longrightarrow>
           getpixel o2 c j =
             (if a + s \<le> c
              then Some (case getpixel (frames ! nat ((c div s) mod int (length frames))) c j of
                           None \<Rightarrow> (0, 0, 0, 0) | Some p \<Rightarrow> p)
              else getpixel o1 c j)"
      by blast
    have dv: "\<And>c. a \<le> c \<Longrightarrow> c < a + s \<Longrightarrow> c div s = a div s"
    proof -
      fix c assume c: "a \<le> c" "c < a + s"
      have "a = s * (a div s)" using "1.prems"(3) by (simp add: mod_eq_0_iff_dvd)
      then have "c = (c - a) + s * (a div s)" by simp
      then have "c div s = ((c - a) + s * (a div s)) div s" by simp
      also have "\<dots> = (c - a) div s + a div s" using s by simp
      also have "(c - a) div s = 0" using c s by simp
      finally show "c div s = a div s" by simp
    qed
    have run: "for_each (vertical_step frames W H s) (py_range a W s) out = Inr o2"
      using True s o1(1) o2(1) by (subst py_range_pos) auto
    show ?thesis
    proof (intro exI conjI allI impI)
      show "for_each (vertical_step frames W H s) (py_range a W s) out = Inr o2" by (rule run)
      show "mode o2 = mode out" using o2 o1 by simp
      show "width o2 = nat W" "height o2 = nat H" using o2 by simp_all
    next
      fix c j assume b: "0 \<le> c \<and> c < W \<and> 0 \<le> j \<and> j < H"
      show "getpixel o2 c j =
             (if a \<le> c
              then Some (case getpixel (frames ! nat ((c div s) mod int (length frames))) c j of
                           None \<Rightarrow> (0, 0, 0, 0) | Some p \<Rightarrow> p)
              else getpixel out c j)"
      proof (cases "a + s \<le> c")
        case True
        then show ?thesis using px2 [of c j] b s by simp
      next
        case False
        note F = this
        show ?thesis
        proof (cases "a \<le> c")
          case True
          then show ?thesis using px2 [of c j] px1 [of c j] b dv [of c] F by simp
        next
          case False
          then show ?thesis using px2 [of c j] px1 [of c j] b F by simp
        qed
      qed
    qed
  qed
qed

lemma new_image_ok:
  "0 \<le> w \<Longrightarrow> 0 \<le> h \<Longrightarrow> new_image m w h c = Inr (mk_image m (nat w) (nat h) (\<lambda>x y. c))"
  by (simp add: new_image_def)

lemma interlace_vertical_result:
  assumes "frames \<noteq> []" "0 \<le> W" "0 \<le> H"
  shows "\<exists>out. interlace_vertical frames W H S = Inr out \<and>
        mode out = RGBA \<and> width out = nat W \<and> height out = nat H \<and>
        (\<forall>c j. 0 \<le> c \<and> c < W \<and> 0 \<le> j \<and> j < H \<longrightarrow>
           getpixel out c j =
             Some (case getpixel (frames ! nat ((c div max 1 (min S W)) mod int (length frames))) c j of
                           None \<Rightarrow> (0, 0, 0, 0) | Some p \<Rightarrow> p))"
proof -
  let ?s = "max 1 (min S W)"
  let ?o = "mk_image RGBA (nat W) (nat H) (\<lambda>x y. (0, 0, 0, 0))"
  have s: "0 < ?s" by simp
  have "\<exists>out'. for_each (vertical_step frames W H ?s) (py_range 0 W ?s) ?o = Inr out' \<and>
        mode out' = mode ?o \<and> width out' = nat W \<and> height out' = nat H \<and>
        (\<forall>c j. 0 \<le> c \<and> c < W \<and> 0 \<le> j \<and> j < H \<longrightarrow>
           getpixel out' c j =
             (if 0 \<le> c
              then Some (case getpixel (frames ! nat ((c div ?s) mod int (length frames))) c j of
                           None \<Rightarrow> (0, 0, 0, 0) | Some p \<Rightarrow> p)
              else getpixel ?o c j))"
    by (rule vertical_loop [OF assms(1,3) s]) simp_all
  then obtain out' where o: "for_each (vertical_step frames W H ?s) (py_range 0 W ?s) ?o = Inr out'"
      "mode out' = mode ?o" "width out' = nat W" "height out' = nat H"
    and px: "\<And>c j. 0 \<le> c \<Longrightarrow> c < W \<Longrightarrow> 0 \<le> j \<Longrightarrow> j < H \<Longrightarrow>
           getpixel out' c j =
              Some (case getpixel (frames ! nat ((c div ?s) mod int (length frames))) c j of
                           None \<Rightarrow> (0, 0, 0, 0) | Some p \<Rightarrow> p)"
    by fastforce
  have "interlace_vertical frames W H S = Inr out'"
    using o(1) assms(2,3) by (simp add: interlace_vertical_def new_image_ok)
  then show ?thesis using o(2-4) px by simp
qed

lemma clamp_div:
  assumes "1 \<le> S" "0 \<le> c" "c < W"
  shows "c div max 1 (min S W) = c div (S::int)"
proof (cases "S \<le> W")
  case True
  then show ?thesis using assms by (simp add: max_def min_def)
next
  case False
  then have "max 1 (min S W) = W" using assms by (simp add: max_def min_def)
  moreover have "c div W = 0" "c div S = 0" using assms False by simp_all
  ultimately show ?thesis by simp
qed

lemma frame_index_bound:
  assumes "frames \<noteq> []"
  shows "nat (k mod int (length frames)) < length frames"
proof -
  have "0 < int (length frames)" using assms by simp
  then have "0 \<le> k mod int (length frames)" "k mod int (length frames) < int (length frames)"
    by simp_all
  then show ?thesis by linarith
qed


text \<open>
  Claim C1. For at least two frames that all have the unified size (W, H), every slice
  size S \<ge> 1, every column x < W and row y < H, the vertical interlacer returns a
  canvas of size (W, H) whose pixel at (x, y) is the pixel at (x, y) of frame number
  floor(x / S) mod N. The witness is the scenario of three solid 4x2 frames (red,
  green, blue) with slice 2: columns 0 and 1 are red, columns 2 and 3 are green, blue
  does not appear.
\<close>

theorem interlace_vertical_pixel:
  assumes "2 \<le> length frames" and "1 \<le> S"
    and "\<forall>f \<in> set frames. width f = W \<and> height f = H"
    and "x < W" and "y < H"
  shows "\<exists>out. interlace_vertical frames (int W) (int H) S = Inr out \<and>
           width out = W \<and> height out = H \<and>
           getpixel out (int x) (int y) =
             getpixel (frames ! nat ((int x div S) mod int (length frames))) (int x) (int y)"
proof -
  have ne: "frames \<noteq> []" using assms(1) by auto
  let ?f = "frames ! nat ((int x div S) mod int (length frames))"
  have "?f \<in> set frames" using frame_index_bound [OF ne] by simp
  then have sz: "width ?f = W" "height ?f = H" using assms(3) by simp_all
  obtain p where p: "getpixel ?f (int x) (int y) = Some p"
    using sz assms(4,5) by (simp add: getpixel_def)
  obtain out where o: "interlace_vertical frames (int W) (int H) S = Inr out"
      "width out = nat (int W)" "height out = nat (int H)"
    and px: "\<And>c j. 0 \<le> c \<Longrightarrow> c < int W \<Longrightarrow> 0 \<le> j \<Longrightarrow> j < int H \<Longrightarrow>
           getpixel out c j =
             Some (case getpixel (frames ! nat ((c div max 1 (min S (int W))) mod int (length frames))) c j of
                           None \<Rightarrow> (0, 0, 0, 0) | Some p \<Rightarrow> p)"
    using interlace_vertical_result [OF ne, of "int W" "int H" S] by fastforce
  have "int x div max 1 (min S (int W)) = int x div S"
    using clamp_div [OF assms(2), of "int x" "int W"] assms(4) by simp
  then have "getpixel out (int x) (int y) = Some p"
    using px [of "int x" "int y"] assms(4,5) p by simp
  then show ?thesis using o p by simp
qed

theorem interlace_vertical_pixel_witness:
  "\<exists>out. interlace_vertical
      [mk_image RGBA 4 2 (\<lambda>x y. (255, 0, 0, 255)), mk_image RGBA 4 2 (\<lambda>x y. (0, 255, 0, 255)),
      mk_image RGBA 4 2 (\<lambda>x y. (0, 0, 255, 255))] 4 2 2 = Inr out \<and>
      width out = 4 \<and> height out = 2 \<and>
      getpixel out 2 1 = Some (0, 255, 0, 255) \<and>
      rows out = [[(255, 0, 0, 255), (255, 0, 0, 255), (0, 255, 0, 255), (0, 255, 0, 255)],
                  [(255, 0, 0, 255), (255, 0, 0, 255), (0, 255, 0, 255), (0, 255, 0, 255)]]"
proof -
  let ?F = "[mk_image RGBA 4 2 (\<lambda>x y. (255, 0, 0, 255)), mk_image RGBA 4 2 (\<lambda>x y. (0, 255, 0, 255)),
      mk_image RGBA 4 2 (\<lambda>x y. (0, 0, 255, 255))]"
  have e: "interlace_vertical ?F 4 2 2 =
      Inr \<lparr>mode = RGBA, width = 4, height = 2,
           rows = [[(255, 0, 0, 255), (255, 0, 0, 255), (0, 255, 0, 255), (0, 255, 0, 255)],
                   [(255, 0, 0, 255), (255, 0, 0, 255), (0, 255, 0, 255), (0, 255, 0, 255)]]\<rparr>"
    by code_simp
  have "\<exists>out. interlace_vertical ?F 4 2 2 = Inr out \<and> width out = 4 \<and> height out = 2 \<and>
      getpixel out 2 1 = Some (0, 255, 0, 255)"
    using interlace_vertical_pixel [of ?F 2 4 2 2 1] by (simp add: getpixel_mk_image)
  then show ?thesis using e by auto
qed

section \<open>The stripes of the vertical interlace\<close>

lemma for_each_map: "for_each body (map g xs) s = for_each (\<lambda>x. body (g x)) xs s"
  by (induction xs arbitrary: s) (auto split: sum.splits)

lemma for_each_cong:
  "(\<And>x s. x \<in> set xs \<Longrightarrow> f x s = g x s) \<Longrightarrow> for_each f xs s = for_each g xs s"
  by (induction xs arbitrary: s) (auto split: sum.splits)

lemma interlace_vertical_stripes:
  assumes "frames \<noteq> []"
  shows "interlace_vertical frames W H S =
     (case new_image RGBA W H (0, 0, 0, 0) of
        Inl e \<Rightarrow> Inl e
      | Inr out \<Rightarrow>
          for_each (paste_stripe frames H) (vertical_stripes (int (length frames)) W S) out)"
proof -
  have "vertical_step frames W H s = (\<lambda>x. paste_stripe frames H
          (x, min (x + s) W, (x div s) mod int (length frames)))" for s
    using assms by (intro ext) (simp add: paste_stripe_def vertical_step_def Let_def)
  then show ?thesis
    by (simp add: interlace_vertical_def vertical_stripes_def Let_def for_each_map
        split: sum.splits)
qed










section \<open>The columns of the vertical mask\<close>

lemma paste_loop_uniform:
  assumes "slit = mk_image md ws hs (\<lambda>x y. col)"
  shows "\<exists>m'. for_each (\<lambda>x m. Inr (paste m slit (x, 0))) xs m = Inr m' \<and>
      mode m' = mode m \<and> width m' = width m \<and> height m' = height m \<and>
      (\<forall>c j. 0 \<le> c \<and> c < int (width m) \<and> 0 \<le> j \<and> j < int (height m) \<longrightarrow>
         getpixel m' c j =
           (if \<exists>x \<in> set xs. x \<le> c \<and> c < x + int ws \<and> j < int hs then Some col
            else getpixel m c j))"
proof (induction xs arbitrary: m)
  case Nil
  then show ?case by simp
next
  case (Cons x xs)
  let ?m1 = "paste m slit (x, 0)"
  obtain m' where m': "for_each (\<lambda>x m. Inr (paste m slit (x, 0))) xs ?m1 = Inr m'"
      "mode m' = mode ?m1" "width m' = width ?m1" "height m' = height ?m1"
    and px: "\<And>c j. 0 \<le> c \<Longrightarrow> c < int (width ?m1) \<Longrightarrow> 0 \<le> j \<Longrightarrow> j < int (height ?m1) \<Longrightarrow>
         getpixel m' c j =
           (if \<exists>x \<in> set xs. x \<le> c \<and> c < x + int ws \<and> j < int hs then Some col
            else getpixel ?m1 c j)"
    using Cons.IH [of ?m1] by fastforce
  have p1: "\<And>c j. 0 \<le> c \<Longrightarrow> c < int (width m) \<Longrightarrow> 0 \<le> j \<Longrightarrow> j < int (height m) \<Longrightarrow>
      getpixel ?m1 c j = (if x \<le> c \<and> c < x + int ws \<and> j < int hs then Some col else getpixel m c j)"
    by (simp add: getpixel_paste assms getpixel_mk_image)
  show ?case
  proof (intro exI conjI allI impI)
    show "for_each (\<lambda>x m. Inr (paste m slit (x, 0))) (x # xs) m = Inr m'" using m'(1) by simp
    show "mode m' = mode m" "width m' = width m" "height m' = height m" using m' by simp_all
  next
    fix c j assume b: "0 \<le> c \<and> c < int (width m) \<and> 0 \<le> j \<and> j < int (height m)"
    show "getpixel m' c j =
           (if \<exists>x \<in> set (x # xs). x \<le> c \<and> c < x + int ws \<and> j < int hs then Some col
            else getpixel m c j)"
    proof (cases "x \<le> c \<and> c < x + int ws \<and> j < int hs")
      case True
      then show ?thesis using px [of c j] p1 [of c j] b by auto
    next
      case False
      then show ?thesis using px [of c j] p1 [of c j] b by auto
    qed
  qed
qed

lemma slit_covers_iff:
  assumes "0 < s" "s \<le> P" "0 \<le> c" "c < (W::int)"
  shows "(\<exists>x \<in> set (py_range 0 W P). x \<le> c \<and> c < x + s) \<longleftrightarrow> c mod P < s"
proof -
  have P: "0 < P" using assms by simp
  have set: "set (py_range 0 W P) = {x. 0 \<le> x \<and> x < W \<and> x mod P = 0}"
    using set_py_range [OF P, of 0 W] by simp
  show ?thesis
  proof
    assume "\<exists>x \<in> set (py_range 0 W P). x \<le> c \<and> c < x + s"
    then obtain x where xin: "x \<in> set (py_range 0 W P)" and xc: "x \<le> c" "c < x + s"
      by (elim bexE conjE)
    have x: "0 \<le> x" "x mod P = 0" "x \<le> c" "c < x + s"
      using xin xc unfolding set by simp_all
    have "c mod P = (c - x) mod P" using x(2) by (simp add: mod_diff_eq [symmetric] del: mod_diff_eq)
    also have "\<dots> = c - x"
    proof (rule mod_pos_pos_trivial)
      show "0 \<le> c - x" using x(3) by simp
      show "c - x < P" using x(4) assms(2) by simp
    qed
    finally show "c mod P < s" using x(4) by simp
  next
    assume a: "c mod P < s"
    let ?x = "c - c mod P"
    have m0: "0 \<le> c mod P" using P by simp
    have m1: "c mod P \<le> c" using P assms(3) by (simp add: zmod_le_nonneg_dividend)
    have "0 \<le> ?x" using m1 by simp
    moreover have "?x < W" using m0 assms(4) by linarith
    moreover have "?x \<le> c" using m0 by simp
    moreover have "c < ?x + s" using a by simp
    moreover have "?x mod P = 0" by (simp add: minus_mod_eq_mult_div)
    ultimately have "?x \<in> set (py_range 0 W P) \<and> ?x \<le> c \<and> c < ?x + s" unfolding set by simp
    then show "\<exists>x \<in> set (py_range 0 W P). x \<le> c \<and> c < x + s" by (intro bexI [of _ ?x]) simp_all
  qed
qed

lemma make_mask_vertical_result:
  assumes "0 \<le> W" "0 \<le> H" "1 \<le> N"
  shows "\<exists>m. make_mask W H S N ''vertical'' = Inr m \<and>
      mode m = RGBA \<and> width m = nat W \<and> height m = nat H \<and>
      (\<forall>c j. 0 \<le> c \<and> c < W \<and> 0 \<le> j \<and> j < H \<longrightarrow>
         getpixel m c j =
           Some (0, 0, 0, if c mod (max 1 S * N) < max 1 S then 0 else 255))"
proof -
  let ?s = "max 1 S"
  let ?P = "?s * N"
  let ?m0 = "mk_image RGBA (nat W) (nat H) (\<lambda>x y. (0, 0, 0, 255))"
  let ?slit = "mk_image RGBA (nat ?s) (nat H) (\<lambda>x y. (0, 0, 0, 0)::pixel)"
  have s: "0 < ?s" by simp
  have sP: "?s \<le> ?P" using assms(3) s by (simp add: mult_le_cancel_left1)
  have P: "?P \<noteq> 0" using sP s by linarith
  obtain m where m: "for_each (\<lambda>x m. Inr (paste m ?slit (x, 0))) (py_range 0 W ?P) ?m0 = Inr m"
      "mode m = mode ?m0" "width m = width ?m0" "height m = height ?m0"
    and px: "\<And>c j. 0 \<le> c \<Longrightarrow> c < int (width ?m0) \<Longrightarrow> 0 \<le> j \<Longrightarrow> j < int (height ?m0) \<Longrightarrow>
         getpixel m c j =
           (if \<exists>x \<in> set (py_range 0 W ?P). x \<le> c \<and> c < x + int (nat ?s) \<and> j < int (nat H)
            then Some (0, 0, 0, 0)
            else getpixel ?m0 c j)"
    using paste_loop_uniform [OF refl, of RGBA "nat ?s" "nat H" "(0, 0, 0, 0)" "py_range 0 W ?P" ?m0]
    by fastforce
  have run: "make_mask W H S N ''vertical'' = Inr m"
    using m(1) assms(1,2) P s by (simp add: make_mask_def Let_def new_image_ok)
  have "getpixel m c j = Some (0, 0, 0, if c mod ?P < ?s then 0 else 255)"
    if b: "0 \<le> c \<and> c < W \<and> 0 \<le> j \<and> j < H" for c j
  proof -
    have cov: "(\<exists>x \<in> set (py_range 0 W ?P). x \<le> c \<and> c < x + ?s) \<longleftrightarrow> c mod ?P < ?s"
      using slit_covers_iff [OF s sP, of c W] b by simp
    have "getpixel m c j =
           (if \<exists>x \<in> set (py_range 0 W ?P). x \<le> c \<and> c < x + ?s
            then Some (0, 0, 0, 0)
            else getpixel ?m0 c j)"
    proof -
      have "int (nat ?s) = ?s" "int (nat H) = H" "int (nat W) = W" using assms by simp_all
      then show ?thesis using px [of c j] b by simp
    qed
    then show ?thesis using cov b by (simp add: getpixel_mk_image)
  qed
  then show ?thesis using run m(2-4) by simp
qed

lemma filter_less_upt: "S \<le> P \<Longrightarrow> filter (\<lambda>x. x < S) [0..<P] = [0..<(S::nat)]"
proof -
  assume "S \<le> P"
  then have "[0..<P] = [0..<S] @ [S..<P]" by (metis upt_add_eq_append le0 le_add_diff_inverse add_0)
  then show ?thesis by (simp add: filter_empty_conv)
qed

lemma count_residues_window:
  assumes "0 < P" "S \<le> P"
  shows "length (filter (\<lambda>x. x mod P < S) [a..<a + P]) = (S::nat)"
proof (induction a)
  case 0
  have "filter (\<lambda>x. x mod P < S) [0..<P] = filter (\<lambda>x. x < S) [0..<P]"
    by (rule filter_cong) simp_all
  then show ?case using filter_less_upt [OF assms(2)] by simp
next
  case (Suc a)
  have l: "[a..<a + P] = a # [Suc a..<a + P]" using assms(1) by (simp add: upt_conv_Cons)
  have r: "[Suc a..<Suc a + P] = [Suc a..<a + P] @ [a + P]" using assms(1) by simp
  have e: "(a + P) mod P = a mod P" by simp
  let ?mid = "filter (\<lambda>x. x mod P < S) [Suc a..<a + P]"
  have "length (filter (\<lambda>x. x mod P < S) [a..<a + P]) = (if a mod P < S then 1 else 0) + length ?mid"
    by (subst l) simp
  moreover have "length (filter (\<lambda>x. x mod P < S) [Suc a..<Suc a + P]) =
      length ?mid + (if a mod P < S then 1 else 0)"
    by (subst r) (simp add: e)
  ultimately show ?case using Suc by simp
qed

lemma column_alpha_uniform:
  assumes "0 < height m"
    and "\<And>y. y < height m \<Longrightarrow> getpixel m (int x) (int y) = Some (r, g, b, v)"
  shows "column_alpha m x a \<longleftrightarrow> v = a"
proof -
  have "column_alpha m x a \<longleftrightarrow> (\<forall>y \<in> set [0..<height m]. v = a)"
    using assms(2) by (simp add: column_alpha_def list_all_iff alpha_def)
  then show ?thesis using assms(1) by auto
qed

lemma mask_column_alpha:
  assumes "1 \<le> N" "0 < H" "x < W"
    and "make_mask (int W) (int H) S (int N) ''vertical'' = Inr m"
  shows "column_alpha m x 0 \<longleftrightarrow> int x mod (max 1 S * int N) < max 1 S"
    and "column_alpha m x 255 \<longleftrightarrow> \<not> int x mod (max 1 S * int N) < max 1 S"
proof -
  obtain m' where m': "make_mask (int W) (int H) S (int N) ''vertical'' = Inr m'"
      "width m' = nat (int W)" "height m' = nat (int H)"
    and px: "\<And>c j. 0 \<le> c \<Longrightarrow> c < int W \<Longrightarrow> 0 \<le> j \<Longrightarrow> j < int H \<Longrightarrow>
         getpixel m' c j =
           Some (0, 0, 0, if c mod (max 1 S * int N) < max 1 S then 0 else 255)"
    using make_mask_vertical_result [of "int W" "int H" "int N" S] assms(1) by fastforce
  have mm: "m' = m" using m'(1) assms(4) by simp
  have h: "0 < height m" using m'(3) mm assms(2) by simp
  have p: "\<And>y. y < height m \<Longrightarrow> getpixel m (int x) (int y) =
      Some (0, 0, 0, if int x mod (max 1 S * int N) < max 1 S then 0 else 255)"
    using px [of "int x"] assms(3) m'(3) mm by simp
  show "column_alpha m x 0 \<longleftrightarrow> int x mod (max 1 S * int N) < max 1 S"
    using column_alpha_uniform [OF h p, of 0] by simp
  show "column_alpha m x 255 \<longleftrightarrow> \<not> int x mod (max 1 S * int N) < max 1 S"
    using column_alpha_uniform [OF h p, of 255] by simp
qed


text \<open>
  Claim C2. For every width W, slice size S \<ge> 1 and frame count N \<ge> 1, and a mask of
  positive height, any S * N consecutive columns a .. a + S * N - 1 inside [0, W) hold
  exactly S columns that are transparent in every row and exactly S * (N - 1) columns
  that are opaque in every row. The witness is W = 12, S = 2, N = 3: the transparent
  columns are exactly 0, 1, 6, 7.
\<close>

theorem mask_duty_cycle:
  assumes "1 \<le> S" and "1 \<le> N" and "0 < H" and "a + S * N \<le> W"
  shows "\<exists>m. make_mask (int W) (int H) (int S) (int N) ''vertical'' = Inr m \<and>
           width m = W \<and> height m = H \<and>
           length (filter (\<lambda>x. column_alpha m x 0) [a..<a + S * N]) = S \<and>
           length (filter (\<lambda>x. column_alpha m x 255) [a..<a + S * N]) = S * (N - 1)"
proof -
  obtain m where m: "make_mask (int W) (int H) (int S) (int N) ''vertical'' = Inr m"
      "width m = nat (int W)" "height m = nat (int H)"
    using make_mask_vertical_result [of "int W" "int H" "int N" "int S"] assms(2) by fastforce
  let ?P = "S * N"
  have P: "0 < ?P" "S \<le> ?P" using assms(1,2) by simp_all
  have s: "max 1 (int S) = int S" using assms(1) by simp
  have ca: "column_alpha m x 0 \<longleftrightarrow> x mod ?P < S" "column_alpha m x 255 \<longleftrightarrow> \<not> x mod ?P < S"
    if "x \<in> set [a..<a + ?P]" for x
  proof -
    have xW: "x < W" using that assms(4) by simp
    have e: "int x mod (int S * int N) = int (x mod ?P)" by (simp add: zmod_int)
    show "column_alpha m x 0 \<longleftrightarrow> x mod ?P < S"
      using mask_column_alpha(1) [OF assms(2,3) xW m(1)] s e by simp
    show "column_alpha m x 255 \<longleftrightarrow> \<not> x mod ?P < S"
      using mask_column_alpha(2) [OF assms(2,3) xW m(1)] s e by simp
  qed
  have f0: "filter (\<lambda>x. column_alpha m x 0) [a..<a + ?P] = filter (\<lambda>x. x mod ?P < S) [a..<a + ?P]"
    by (rule filter_cong [OF refl]) (rule ca(1))
  have f1: "filter (\<lambda>x. column_alpha m x 255) [a..<a + ?P] =
            filter (\<lambda>x. \<not> x mod ?P < S) [a..<a + ?P]"
    by (rule filter_cong [OF refl]) (rule ca(2))
  have c0: "length (filter (\<lambda>x. x mod ?P < S) [a..<a + ?P]) = S"
    by (rule count_residues_window [OF P])
  have "length (filter (\<lambda>x. x mod ?P < S) [a..<a + ?P]) +
        length (filter (\<lambda>x. \<not> x mod ?P < S) [a..<a + ?P]) = ?P"
    using sum_length_filter_compl [of "\<lambda>x. x mod ?P < S" "[a..<a + ?P]"] by simp
  then have c1: "length (filter (\<lambda>x. \<not> x mod ?P < S) [a..<a + ?P]) = S * (N - 1)"
    using c0 assms(2) by (simp add: algebra_simps diff_mult_distrib2)
  show ?thesis using m f0 f1 c0 c1 by simp
qed

theorem mask_duty_cycle_witness:
  "\<exists>m. make_mask 12 2 2 3 ''vertical'' = Inr m \<and>
     filter (\<lambda>x. column_alpha m x 0) [0..<12] = [0, 1, 6, 7] \<and>
     length (filter (\<lambda>x. column_alpha m x 0) [3..<9]) = 2 \<and>
     length (filter (\<lambda>x. column_alpha m x 255) [3..<9]) = 4"
proof -
  let ?M = "\<lparr>mode = RGBA, width = 12, height = 2,
         rows = [[(0, 0, 0, 0), (0, 0, 0, 0), (0, 0, 0, 255), (0, 0, 0, 255), (0, 0, 0, 255),
                  (0, 0, 0, 255), (0, 0, 0, 0), (0, 0, 0, 0), (0, 0, 0, 255), (0, 0, 0, 255),
                  (0, 0, 0, 255), (0, 0, 0, 255)],
                 [(0, 0, 0, 0), (0, 0, 0, 0), (0, 0, 0, 255), (0, 0, 0, 255), (0, 0, 0, 255),
                  (0, 0, 0, 255), (0, 0, 0, 0), (0, 0, 0, 0), (0, 0, 0, 255), (0, 0, 0, 255),
                  (0, 0, 0, 255), (0, 0, 0, 255)]]\<rparr>"
  have e: "make_mask 12 2 2 3 ''vertical'' = Inr ?M"
    by code_simp
  have f: "filter (\<lambda>x. column_alpha ?M x 0) [0..<12] = [0, 1, 6, 7]"
    by code_simp
  show ?thesis
    using mask_duty_cycle [of 2 3 2 3 12] e f by simp
qed

section \<open>Mask slits and frame 0\<close>

lemma div_in_stripe:
  assumes "0 < s" "a mod s = 0" "a \<le> c" "c < a + (s::int)"
  shows "c div s = a div s"
proof -
  have "a = s * (a div s)" using assms(2) by (simp add: mod_eq_0_iff_dvd)
  then have "c = (c - a) + s * (a div s)" by simp
  then have "c div s = ((c - a) + s * (a div s)) div s" by simp
  also have "\<dots> = (c - a) div s + a div s" using assms(1) by simp
  also have "(c - a) div s = 0" using assms(3,4) by simp
  finally show ?thesis by simp
qed

lemma find_stripe:
  "0 < s \<Longrightarrow> a mod s = 0 \<Longrightarrow> a \<le> c \<Longrightarrow> c < W \<Longrightarrow>
   find (\<lambda>(x, x2, f). x \<le> c \<and> c < x2)
     (map (\<lambda>x. (x, min (x + s) W, (x div s) mod N)) (py_range a W s)) =
   Some (c - c mod s, min (c - c mod s + s) W, (c div s) mod N)"
proof (induction a W s rule: py_range.induct)
  case (1 a W s)
  have aW: "a < W" using "1.prems" by simp
  have e: "py_range a W s = a # py_range (a + s) W s"
    using "1.prems"(1) aW by (subst py_range_pos) simp_all
  show ?case
  proof (cases "c < a + s")
    case True
    have d: "c div s = a div s" by (rule div_in_stripe [OF "1.prems"(1,2,3) True])
    have "c mod s = c - a"
    proof -
      have "c mod s = (c - a) mod s" using "1.prems"(2)
        by (simp add: mod_diff_eq [symmetric] del: mod_diff_eq)
      also have "\<dots> = c - a" using True "1.prems"(3) by simp
      finally show ?thesis .
    qed
    then have "c - c mod s = a" by simp
    then show ?thesis using e True "1.prems" d by simp
  next
    case False
    have ih: "find (\<lambda>(x, x2, f). x \<le> c \<and> c < x2)
       (map (\<lambda>x. (x, min (x + s) W, (x div s) mod N)) (py_range (a + s) W s)) =
       Some (c - c mod s, min (c - c mod s + s) W, (c div s) mod N)"
    proof (rule "1.IH"(1))
      show "0 < s \<and> a < W" using "1.prems"(1) aW by simp
      show "0 < s" by (rule "1.prems"(1))
      show "(a + s) mod s = 0" using "1.prems"(2) by simp
      show "a + s \<le> c" using False by simp
      show "c < W" by (rule "1.prems"(4))
    qed
    have "\<not> (a \<le> c \<and> c < min (a + s) W)" using False by simp
    then show ?thesis using e ih False by simp
  qed
qed

lemma stripe_frame_vertical:
  assumes "0 \<le> c" "c < W"
  shows "stripe_frame (vertical_stripes N W S) c = Some ((c div max 1 (min S W)) mod N)"
proof -
  have s: "0 < max 1 (min S W)" by simp
  show ?thesis
    using find_stripe [OF s _ assms, of N]
    by (simp add: stripe_frame_def vertical_stripes_def Let_def)
qed

lemma slit_iff_frame0:
  assumes "1 \<le> N" "0 \<le> c" "c < (W::int)"
  shows "c mod (max 1 S * N) < max 1 S \<longleftrightarrow> (c div max 1 (min S W)) mod N = 0"
proof (cases "S \<le> W")
  case True
  let ?s = "max 1 S"
  have e: "max 1 (min S W) = ?s" using True by (simp add: min_def)
  have s: "0 < ?s" by simp
  have N: "0 \<le> N" "0 < N" using assms(1) by simp_all
  have dec: "c mod (?s * N) = ?s * (c div ?s mod N) + c mod ?s"
    by (rule zmod_zmult2_eq [OF N(1)])
  have r: "0 \<le> c mod ?s" "c mod ?s < ?s" using s by simp_all
  have q: "0 \<le> c div ?s mod N" using N(2) by simp
  show ?thesis
  proof
    assume "c mod (?s * N) < ?s"
    then have "?s * (c div ?s mod N) < ?s" using dec r by linarith
    then have "?s * (c div ?s mod N) < ?s * 1" by simp
    then have "c div ?s mod N < 1" using s by (simp only: mult_less_cancel_left_pos)
    then show "(c div max 1 (min S W)) mod N = 0" using q e by simp
  next
    assume "(c div max 1 (min S W)) mod N = 0"
    then show "c mod (?s * N) < ?s" using dec r e by simp
  qed
next
  case False
  then have W: "W < S" by simp
  have W0: "0 < W" using assms by simp
  have e: "max 1 (min S W) = W" "max 1 S = S" using W W0 by (simp_all add: min_def max_def)
  have "S * 1 \<le> S * N" using assms(1) W W0 by (intro mult_left_mono) simp_all
  then have "S \<le> S * N" by simp
  then have "c < S * N" using assms(3) W by linarith
  then have "c mod (S * N) = c" using assms(2) by simp
  moreover have "c div W = 0" using assms by simp
  ultimately show ?thesis using e W assms by simp
qed


text \<open>
  Claim C3. Take at least one frame, all frames of the unified size (W, H) with H > 0,
  a slice size S no larger than W, and the same W, H, S and frame count for the mask
  and for the vertical interlacer. Then both return an image; the interlacer's loop
  crops and pastes exactly the stripes of \<open>vertical_stripes\<close>; a column x < W lies in
  a stripe with some frame index, and the canvas holds that frame's pixels in every
  row of the column; and the column is transparent in every row of the mask if and
  only if that frame index is 0.
\<close>

theorem mask_interlacer_alignment:
  assumes "frames \<noteq> []"
    and "\<forall>f \<in> set frames. width f = W \<and> height f = H"
    and "0 < H" and "x < W" and "S \<le> int W"
  shows "\<exists>m out f_idx.
           make_mask (int W) (int H) S (int (length frames)) ''vertical'' = Inr m \<and>
           interlace_vertical frames (int W) (int H) S = Inr out \<and>
           interlace_vertical frames (int W) (int H) S =
             (case new_image RGBA (int W) (int H) (0, 0, 0, 0) of
                Inl e \<Rightarrow> Inl e
              | Inr canvas \<Rightarrow>
                  for_each (paste_stripe frames (int H))
                    (vertical_stripes (int (length frames)) (int W) S) canvas) \<and>
           stripe_frame (vertical_stripes (int (length frames)) (int W) S) (int x) = Some f_idx \<and>
           (\<forall>y < H. getpixel out (int x) (int y) = getpixel (frames ! nat f_idx) (int x) (int y)) \<and>
           (column_alpha m x 0 \<longleftrightarrow> f_idx = 0)"
proof -
  let ?N = "int (length frames)"
  let ?s = "max 1 (min S (int W))"
  let ?f = "(int x div ?s) mod ?N"
  have N: "1 \<le> ?N" using assms(1) by (cases frames) simp_all
  obtain m where m: "make_mask (int W) (int H) S ?N ''vertical'' = Inr m"
    using make_mask_vertical_result [of "int W" "int H" ?N S] N by fastforce
  obtain out where o: "interlace_vertical frames (int W) (int H) S = Inr out"
    and px: "\<And>c j. 0 \<le> c \<Longrightarrow> c < int W \<Longrightarrow> 0 \<le> j \<Longrightarrow> j < int H \<Longrightarrow>
           getpixel out c j =
             Some (case getpixel (frames ! nat ((c div ?s) mod ?N)) c j of
                     None \<Rightarrow> (0, 0, 0, 0) | Some p \<Rightarrow> p)"
    using interlace_vertical_result [OF assms(1), of "int W" "int H" S] by fastforce
  have sf: "stripe_frame (vertical_stripes ?N (int W) S) (int x) = Some ?f"
    using stripe_frame_vertical [of "int x" "int W" ?N S] assms(4) by simp
  have "frames ! nat ?f \<in> set frames" using frame_index_bound [OF assms(1)] by simp
  then have sz: "width (frames ! nat ?f) = W" "height (frames ! nat ?f) = H"
    using assms(2) by simp_all
  have pix: "getpixel out (int x) (int y) = getpixel (frames ! nat ?f) (int x) (int y)"
    if yH: "y < H" for y
  proof -
    obtain p where p: "getpixel (frames ! nat ?f) (int x) (int y) = Some p"
      using sz assms(4) yH by (simp add: getpixel_def)
    show ?thesis using px [of "int x" "int y"] assms(4) yH p by simp
  qed
  have "column_alpha m x 0 \<longleftrightarrow> int x mod (max 1 S * ?N) < max 1 S"
    using mask_column_alpha(1) [OF _ assms(3,4), of "length frames" S m] N m by simp
  also have "\<dots> \<longleftrightarrow> ?f = 0"
    using slit_iff_frame0 [of ?N "int x" "int W" S] N assms(4) by simp
  finally have al: "column_alpha m x 0 \<longleftrightarrow> ?f = 0" .
  show ?thesis
    using m o interlace_vertical_stripes [OF assms(1), of "int W" "int H" S] sf pix al
    by (intro exI [of _ m] exI [of _ out] exI [of _ ?f]) simp
qed

theorem mask_interlacer_alignment_witness:
  "\<exists>m out.
     make_mask 12 2 2 3 ''vertical'' = Inr m \<and>
     interlace_vertical
       [mk_image RGBA 12 2 (\<lambda>x y. (255, 0, 0, 255)), mk_image RGBA 12 2 (\<lambda>x y. (0, 255, 0, 255)),
        mk_image RGBA 12 2 (\<lambda>x y. (0, 0, 255, 255))] 12 2 2 = Inr out \<and>
     stripe_frame (vertical_stripes 3 12 2) 6 = Some 0 \<and>
     getpixel out 6 1 = Some (255, 0, 0, 255) \<and>
     column_alpha m 6 0 \<and>
     stripe_frame (vertical_stripes 3 12 2) 2 = Some 1 \<and>
     getpixel out 2 1 = Some (0, 255, 0, 255) \<and>
     \<not> column_alpha m 2 0"
proof -
  let ?F = "[mk_image RGBA 12 2 (\<lambda>x y. (255, 0, 0, 255)), mk_image RGBA 12 2 (\<lambda>x y. (0, 255, 0, 255)),
        mk_image RGBA 12 2 (\<lambda>x y. (0, 0, 255, 255))]"
  have s6: "stripe_frame (vertical_stripes 3 12 2) 6 = Some 0"
    by code_simp
  have s2: "stripe_frame (vertical_stripes 3 12 2) 2 = Some 1"
    by code_simp
  have h: "\<forall>f \<in> set ?F. width f = 12 \<and> height f = 2"
    by simp
  obtain m out f where a:
      "make_mask (int 12) (int 2) 2 (int (length ?F)) ''vertical'' = Inr m"
      "interlace_vertical ?F (int 12) (int 2) 2 = Inr out"
      "stripe_frame (vertical_stripes (int (length ?F)) (int 12) 2) (int 6) = Some f"
      "\<forall>y < 2. getpixel out (int 6) (int y) = getpixel (?F ! nat f) (int 6) (int y)"
      "column_alpha m 6 0 \<longleftrightarrow> f = 0"
    using mask_interlacer_alignment [of ?F 12 2 6 2, OF _ h] by auto
  obtain m' out' f' where b:
      "make_mask (int 12) (int 2) 2 (int (length ?F)) ''vertical'' = Inr m'"
      "interlace_vertical ?F (int 12) (int 2) 2 = Inr out'"
      "stripe_frame (vertical_stripes (int (length ?F)) (int 12) 2) (int 2) = Some f'"
      "\<forall>y < 2. getpixel out' (int 2) (int y) = getpixel (?F ! nat f') (int 2) (int y)"
      "column_alpha m' 2 0 \<longleftrightarrow> f' = 0"
    using mask_interlacer_alignment [of ?F 12 2 2 2, OF _ h] by auto
  have e: "m' = m" "out' = out" using a(1,2) b(1,2) by simp_all
  have f: "f = 0" "f' = 1" using a(3) b(3) s6 s2 by simp_all
  have p6: "getpixel out 6 1 = Some (255, 0, 0, 255)"
    using a(4) [rule_format, of 1] f(1) by (simp add: getpixel_mk_image)
  have p2: "getpixel out 2 1 = Some (0, 255, 0, 255)"
    using b(4) [rule_format, of 1] f(2) e by (simp add: getpixel_mk_image)
  show ?thesis
    using a(1,2,5) b(5) e f s6 s2 p6 p2 by simp
qed

section \<open>The size unifier\<close>

lemma py_min_Min:
  assumes "xs \<noteq> []"
  shows "py_min xs = Inr (Min (set xs))"
proof (cases xs)
  case Nil
  then show ?thesis using assms by simp
next
  case (Cons a list)
  have "Min (set (a # list)) = fold min list a" by (rule Min.set_eq_fold)
  then show ?thesis using Cons by simp
qed

lemma unify_loop_sizes:
  "1 \<le> W \<Longrightarrow> 1 \<le> H \<Longrightarrow>
   \<exists>out'. unify_loop lanczos W H imgs out = Inr (out @ out') \<and> length out' = length imgs \<and>
     (\<forall>f \<in> set out'. width f = W \<and> height f = H)"
proof (induction imgs arbitrary: out)
  case Nil
  then show ?case by simp
next
  case (Cons im imgs)
  show ?case
  proof (cases "width im \<noteq> W \<or> height im \<noteq> H")
    case True
    let ?r = "mk_image (mode im) W H (lanczos im W H)"
    have r: "im_resize lanczos im (W, H) = Inr ?r" using Cons.prems by (simp add: im_resize_def)
    obtain out' where o: "unify_loop lanczos W H imgs (out @ [?r]) = Inr ((out @ [?r]) @ out')"
      "length out' = length imgs" "\<forall>f \<in> set out'. width f = W \<and> height f = H"
      using Cons.IH [OF Cons.prems, of "out @ [?r]"] by blast
    have "unify_loop lanczos W H (im # imgs) out = Inr (out @ (?r # out'))"
      using True r o(1) by simp
    then show ?thesis using o(2,3) by (intro exI [of _ "?r # out'"]) simp
  next
    case False
    obtain out' where o: "unify_loop lanczos W H imgs (out @ [im]) = Inr ((out @ [im]) @ out')"
      "length out' = length imgs" "\<forall>f \<in> set out'. width f = W \<and> height f = H"
      using Cons.IH [OF Cons.prems, of "out @ [im]"] by blast
    have "unify_loop lanczos W H (im # imgs) out = Inr (out @ (im # out'))"
      using False o(1) by simp
    then show ?thesis using o(2,3) False by (intro exI [of _ "im # out'"]) simp
  qed
qed


text \<open>
  Claim C5. For at least two frames, each at least one pixel wide and high, the size
  unifier with strategy min returns the minimum width over all frames and the minimum
  height over all frames, each taken on its own axis, and as many frames as it was
  given, every one of exactly that size. In the witness the frames are 2x5 and 4x3 and
  the result is 2x3, the size of neither.
\<close>

theorem unify_sizes_min:
  assumes "2 \<le> length imgs"
    and "\<forall>im \<in> set imgs. 1 \<le> width im \<and> 1 \<le> height im"
  shows "\<exists>out. unify_sizes lanczos imgs ''min'' =
             Inr (out, Min (width ` set imgs), Min (height ` set imgs)) \<and>
           length out = length imgs \<and>
           (\<forall>f \<in> set out. width f = Min (width ` set imgs) \<and> height f = Min (height ` set imgs))"
proof -
  let ?W = "Min (width ` set imgs)" and ?H = "Min (height ` set imgs)"
  have ne: "imgs \<noteq> []" using assms(1) by auto
  have w: "py_min (map width imgs) = Inr ?W" using py_min_Min [of "map width imgs"] ne by simp
  have h: "py_min (map height imgs) = Inr ?H" using py_min_Min [of "map height imgs"] ne by simp
  have "?W \<in> width ` set imgs" using ne by (intro Min_in) simp_all
  then have W1: "1 \<le> ?W" using assms(2) by auto
  have "?H \<in> height ` set imgs" using ne by (intro Min_in) simp_all
  then have H1: "1 \<le> ?H" using assms(2) by auto
  obtain out where o: "unify_loop lanczos ?W ?H imgs [] = Inr ([] @ out)"
      "length out = length imgs" "\<forall>f \<in> set out. width f = ?W \<and> height f = ?H"
    using unify_loop_sizes [OF W1 H1, of lanczos imgs "[]"] by blast
  have "unify_sizes lanczos imgs ''min'' = Inr (out, ?W, ?H)"
    using w h o(1) by (simp add: unify_sizes_def)
  then show ?thesis using o(2,3) by simp
qed



theorem unify_sizes_min_witness:
  "\<exists>out. unify_sizes (\<lambda>im W H x y. (0, 0, 0, 0))
      [mk_image RGBA 2 5 (\<lambda>x y. (255, 0, 0, 255)), mk_image RGBA 4 3 (\<lambda>x y. (0, 255, 0, 255))]
      ''min'' = Inr (out, 2, 3) \<and>
     map width out = [2, 2] \<and> map height out = [3, 3]"
proof -
  let ?imgs = "[mk_image RGBA 2 5 (\<lambda>x y. (255, 0, 0, 255)),
                mk_image RGBA 4 3 (\<lambda>x y. (0, 255, 0, 255))]"
  obtain out where o: "unify_sizes (\<lambda>im W H x y. (0, 0, 0, 0)) ?imgs ''min'' = Inr (out, 2, 3)"
      "length out = 2" "\<forall>f \<in> set out. width f = 2 \<and> height f = 3"
    using unify_sizes_min [of ?imgs "(\<lambda>im W H x y. (0, 0, 0, 0))"] by auto
  obtain f1 f2 where "out = [f1, f2]"
    using o(2) by (auto simp add: length_Suc_conv numeral_2_eq_2)
  then show ?thesis using o by auto
qed

text \<open>
  Claim C7, as stated, fails: the size unifier does not look at the number of frames.
  With one frame it returns normally.
\<close>

theorem unify_sizes_single_frame_counterexample:
  "length [\<lparr>mode = RGBA, width = 1, height = 1, rows = [[(255, 0, 0, 255)]]\<rparr>] < 2 \<and>
   unify_sizes (\<lambda>im W H x y. (0, 0, 0, 0))
     [\<lparr>mode = RGBA, width = 1, height = 1, rows = [[(255, 0, 0, 255)]]\<rparr>] ''first'' =
   Inr ([\<lparr>mode = RGBA, width = 1, height = 1, rows = [[(255, 0, 0, 255)]]\<rparr>], 1, 1)"
  by (simp add: unify_sizes_def)

text \<open>
  Claim C7, amended. The size unifier makes no check of the frame count. Given exactly
  one frame it succeeds, with either strategy, and returns that frame unchanged
  together with its width and height. Given no frame it fails with Python's own
  IndexError (strategy first) or ValueError (strategy min).
\<close>

theorem unify_sizes_few_frames:
  "unify_sizes lanczos [im] mode_name = Inr ([im], width im, height im) \<and>
   unify_sizes lanczos [] ''first'' = Inl IndexError \<and>
   unify_sizes lanczos [] ''min'' = Inl ValueError"
  by (simp add: unify_sizes_def)

section \<open>Compositing on white\<close>

lemma div255_mult: "n \<le> 255 \<Longrightarrow> div255 (n * 255) = n"
  unfolding div255_def Let_def by arith

lemma unat_byte_le: "unat (b::byte) \<le> 255"
proof -
  have "unat b < 2 ^ LENGTH(8)" by (rule unsigned_less)
  then show ?thesis by simp
qed

lemma blend_0: "blend 0 d s = d"
  by (simp add: blend_def div255_mult unat_byte_le)

lemma blend_255: "blend 255 d s = s"
  by (simp add: blend_def div255_mult unat_byte_le)

lemma getpixel_rows:
  "getpixel im (int x) (int y) = Some p \<Longrightarrow> x < width im \<and> y < height im \<and> rows im ! y ! x = p"
  by (simp add: getpixel_def split: if_splits)


text \<open>
  Claim C6. For every RGBA image and every pixel (r, g, b, a) of it, the composite on
  white is an RGB image of the same size, opaque at that position; the pixel there is
  exactly (255, 255, 255) when a = 0 and keeps (r, g, b) when a = 255.
\<close>

theorem composite_on_white_pixel:
  assumes "mode img = RGBA" and "getpixel img (int x) (int y) = Some (r, g, b, a)"
  shows "mode (composite_on_white img) = RGB \<and>
         width (composite_on_white img) = width img \<and>
         height (composite_on_white img) = height img \<and>
         (\<exists>p. getpixel (composite_on_white img) (int x) (int y) = Some p \<and> alpha p = 255 \<and>
              (a = 0 \<longrightarrow> p = (255, 255, 255, 255)) \<and>
              (a = 255 \<longrightarrow> p = (r, g, b, 255)))"
proof -
  have b: "x < width img" "y < height img" and px: "rows img ! y ! x = (r, g, b, a)"
    using getpixel_rows [OF assms(2)] by simp_all
  let ?bg = "mk_image RGB (width img) (height img) (\<lambda>i j. (255, 255, 255, 255))"
  have c: "composite_on_white img = paste_masked ?bg img (split_last img)"
    using assms(1) by (simp add: composite_on_white_def)
  have band: "split_last img ! y ! x = a"
    using b px by (simp add: split_last_def alpha_def)
  have bgp: "rows ?bg ! y ! x = (255, 255, 255, 255)"
    using b by (simp add: mk_image_def)
  have "getpixel (composite_on_white img) (int x) (int y) =
      Some (blend a 255 r, blend a 255 g, blend a 255 b, 255)"
    using b band bgp px
    by (simp add: c paste_masked_def getpixel_mk_image Let_def red_def green_def blue_def alpha_def)
  then show ?thesis
    by (simp add: c paste_masked_def alpha_def blend_0 blend_255)
qed

theorem composite_on_white_pixel_witness:
  "mode (composite_on_white
      \<lparr>mode = RGBA, width = 2, height = 1, rows = [[(10, 20, 30, 0), (10, 20, 30, 255)]]\<rparr>) = RGB \<and>
   getpixel (composite_on_white
      \<lparr>mode = RGBA, width = 2, height = 1, rows = [[(10, 20, 30, 0), (10, 20, 30, 255)]]\<rparr>) 0 0 =
     Some (255, 255, 255, 255) \<and>
   getpixel (composite_on_white
      \<lparr>mode = RGBA, width = 2, height = 1, rows = [[(10, 20, 30, 0), (10, 20, 30, 255)]]\<rparr>) 1 0 =
     Some (10, 20, 30, 255)"
proof -
  let ?img = "\<lparr>mode = RGBA, width = 2, height = 1,
                rows = [[(10, 20, 30, 0), (10, 20, 30, 255)]]\<rparr>"
  have a: "getpixel ?img (int 0) (int 0) = Some (10, 20, 30, 0)"
    by (simp add: getpixel_def)
  have b: "getpixel ?img (int 1) (int 0) = Some (10, 20, 30, 255)"
    by (simp add: getpixel_def)
  show ?thesis
    using composite_on_white_pixel [OF _ a] composite_on_white_pixel [OF _ b]
    by (auto simp add: alpha_def)
qed

section \<open>The run\<close>

text \<open>
  Claim C8. Whenever the collected file list has fewer than two entries, the run ends
  with SystemExit carrying a message, the exit status is not 0, and nothing was printed,
  created or saved before; when the folder exists, the message names the number of
  files found, the folder and the extensions.
\<close>

theorem insufficient_frames_abort:
  assumes "length (collected w) < 2"
  shows "(\<exists>m. fst (main w a) = SystemExit m) \<and>
         exit_status (fst (main w a)) \<noteq> 0 \<and>
         snd (main w a) = [] \<and>
         (folder_exists w \<longrightarrow>
            fst (main w a) =
              SystemExit (Need_at_least_2 (length (collected w)) (folder w) (exts a)))"
  using assms by (simp add: main_def Let_def)


theorem insufficient_frames_abort_witness:
  "main \<lparr>folder_exists = True, folder = ''/frames'', collected = [''1.png''],
          decode = (\<lambda>f. Inl ''unreadable''), resampling = (\<lambda>im W H x y. (0, 0, 0, 0))\<rparr>
        \<lparr>dir = ''frames'', recursive = False, exts = ''png'', slice = 1,
          direction = ''vertical'', resize = ''first'', out_base = ''base.png'',
          out_mask = Some ''mask.png'', force_rgb = False, white_bg = False\<rparr> =
     (SystemExit (Need_at_least_2 1 ''/frames'' ''png''), [])"
  using insufficient_frames_abort
      [of "\<lparr>folder_exists = True, folder = ''/frames'', collected = [''1.png''],
            decode = (\<lambda>f. Inl ''unreadable''), resampling = (\<lambda>im W H x y. (0, 0, 0, 0))\<rparr>"
          "\<lparr>dir = ''frames'', recursive = False, exts = ''png'', slice = 1,
            direction = ''vertical'', resize = ''first'', out_base = ''base.png'',
            out_mask = Some ''mask.png'', force_rgb = False, white_bg = False\<rparr>"]
  by (simp add: prod_eq_iff)

lemma write_mask_events:
  "\<exists>more. snd (write_mask a W H n evs) = evs @ more"
  by (simp add: write_mask_def split: option.splits sum.splits)


text \<open>
  Claim C10. When both the white-background and the force-RGB options are set and the
  run reaches its output (the folder exists, at least two files are collected, the
  frames load, are unified and interlaced into a canvas), the run prints the collected
  files, creates the output directory and saves, under the output name, the composite
  on white of that canvas; and the whole run is the same as with force-RGB unset, so
  the conversion that drops the alpha channel is not applied.
\<close>

theorem white_bg_precedence:
  assumes "white_bg a" and "force_rgb a"
    and "folder_exists w" and "2 \<le> length (collected w)"
    and "load_frames (decode w) (collected w) [] = Inr imgs"
    and "unify_sizes (resampling w) imgs (resize a) = Inr (frames, W, H)"
    and "(if direction a = ''vertical''
          then interlace_vertical frames (int W) (int H) (slice a)
          else interlace_horizontal frames (int W) (int H) (slice a)) = Inr base"
  shows "(\<exists>more. snd (main w a) =
            [Print_collected (length (collected w)) (folder w) (collected w),
             Mkdir_parent (out_base a),
             Save (out_base a) (composite_on_white base),
             Print_base_saved (out_base a) W H (length frames) (slice a) (direction a)] @ more) \<and>
         main w a = main w (a\<lparr>force_rgb := False\<rparr>)"
proof -
  let ?evs = "[Print_collected (length (collected w)) (folder w) (collected w),
             Mkdir_parent (out_base a),
             Save (out_base a) (composite_on_white base),
             Print_base_saved (out_base a) W H (length frames) (slice a) (direction a)]"
  have oi: "output_image a base = composite_on_white base"
    using assms(1) by (simp add: output_image_def)
  have "main w a = write_mask a W H (length frames) ?evs"
    using assms(3-7) oi by (simp add: main_def Let_def)
  then have 1: "\<exists>more. snd (main w a) = ?evs @ more"
    using write_mask_events [of a W H "length frames" ?evs] by simp
  have o: "output_image a = output_image (a\<lparr>force_rgb := False\<rparr>)"
    using assms(1) by (intro ext) (simp add: output_image_def)
  have wm: "write_mask (a\<lparr>force_rgb := False\<rparr>) = write_mask a"
    by (intro ext) (simp add: write_mask_def split: option.splits sum.splits)
  have 2: "main w a = main w (a\<lparr>force_rgb := False\<rparr>)"
    unfolding main_def o [symmetric] wm
    by (simp add: Let_def split: sum.splits prod.splits)
  show ?thesis using 1 2 by simp
qed

theorem white_bg_precedence_witness:
  "(\<exists>more. snd (main
       \<lparr>folder_exists = True, folder = ''/frames'', collected = [''1.png'', ''2.png''],
         decode = (\<lambda>f. Inr \<lparr>mode = RGBA, width = 1, height = 1, rows = [[(10, 20, 30, 0)]]\<rparr>),
         resampling = (\<lambda>im W H x y. (0, 0, 0, 0))\<rparr>
       \<lparr>dir = ''frames'', recursive = False, exts = ''png'', slice = 1,
         direction = ''vertical'', resize = ''first'', out_base = ''base.png'',
         out_mask = None, force_rgb = True, white_bg = True\<rparr>) =
     [Print_collected 2 ''/frames'' [''1.png'', ''2.png''],
      Mkdir_parent ''base.png'',
      Save ''base.png'' \<lparr>mode = RGB, width = 1, height = 1, rows = [[(255, 255, 255, 255)]]\<rparr>,
      Print_base_saved ''base.png'' 1 1 2 1 ''vertical''] @ more) \<and>
   convert_rgb \<lparr>mode = RGBA, width = 1, height = 1, rows = [[(10, 20, 30, 0)]]\<rparr> =
   \<lparr>mode = RGB, width = 1, height = 1, rows = [[(10, 20, 30, 255)]]\<rparr>"
proof -
  let ?b = "\<lparr>mode = RGBA, width = 1, height = 1, rows = [[(10, 20, 30, 0)]]\<rparr>"
  let ?w = "\<lparr>folder_exists = True, folder = ''/frames'', collected = [''1.png'', ''2.png''],
         decode = (\<lambda>f. Inr ?b), resampling = (\<lambda>im W H x y. (0, 0, 0, 0))\<rparr>"
  let ?a = "\<lparr>dir = ''frames'', recursive = False, exts = ''png'', slice = 1,
         direction = ''vertical'', resize = ''first'', out_base = ''base.png'',
         out_mask = None, force_rgb = True, white_bg = True\<rparr>"
  have l: "load_frames (decode ?w) (collected ?w) [] = Inr [?b, ?b]"
    by simp
  have u: "unify_sizes (resampling ?w) [?b, ?b] (resize ?a) = Inr ([?b, ?b], 1, 1)"
    by (simp add: unify_sizes_def)
  have i: "interlace_vertical [?b, ?b] 1 1 1 = Inr ?b"
    by code_simp
  have i': "(if direction ?a = ''vertical''
          then interlace_vertical [?b, ?b] (int 1) (int 1) (slice ?a)
          else interlace_horizontal [?b, ?b] (int 1) (int 1) (slice ?a)) = Inr ?b"
    using i by simp
  have c: "composite_on_white ?b =
      \<lparr>mode = RGB, width = 1, height = 1, rows = [[(255, 255, 255, 255)]]\<rparr>"
    by (simp add: composite_on_white_def paste_masked_def split_last_def mk_image_def
        red_def green_def blue_def alpha_def blend_0 Let_def)
  have d: "convert_rgb ?b = \<lparr>mode = RGB, width = 1, height = 1, rows = [[(10, 20, 30, 255)]]\<rparr>"
    by (simp add: convert_rgb_def mk_image_def red_def green_def blue_def Let_def)
  have "\<exists>more. snd (main ?w ?a) =
     [Print_collected 2 ''/frames'' [''1.png'', ''2.png''],
      Mkdir_parent ''base.png'',
      Save ''base.png'' (composite_on_white ?b),
      Print_base_saved ''base.png'' 1 1 2 1 ''vertical''] @ more"
    using white_bg_precedence [where a = ?a and w = ?w and imgs = "[?b, ?b]" and frames = "[?b, ?b]"
        and W = 1 and H = 1 and base = ?b, OF _ _ _ _ l u i', THEN conjunct1]
    by (simp add: numeral_2_eq_2)
  then show ?thesis unfolding c using d by simp
qed


section \<open>Slice sizes below 1\<close>

lemma for_each_total:
  "(\<And>x s. x \<in> set xs \<Longrightarrow> \<exists>s'. body x s = Inr s') \<Longrightarrow> \<exists>s'. for_each body xs s = Inr s'"
proof (induction xs arbitrary: s)
  case Nil
  then show ?case by simp
next
  case (Cons x xs)
  obtain s1 where s1: "body x s = Inr s1" using Cons.prems [of x s] by auto
  obtain s2 where "for_each body xs s1 = Inr s2" using Cons.IH [of s1] Cons.prems by auto
  then show ?case using s1 by simp
qed

lemma interlace_horizontal_ok:
  assumes "frames \<noteq> []" "0 \<le> W" "0 \<le> H"
  shows "\<exists>out. interlace_horizontal frames W H S = Inr out"
proof -
  let ?s = "max 1 (min S H)"
  have s: "0 < ?s" by simp
  have step: "\<exists>s'. horizontal_step frames W H ?s y out = Inr s'"
    if "y \<in> set (py_range 0 H ?s)" for y out
  proof -
    have "y < H" using that set_py_range [OF s, of 0 H] by simp
    then have "y \<le> min (y + ?s) H" using s by simp
    then show ?thesis using assms(1,2) by (simp add: horizontal_step_def Let_def crop_ok)
  qed
  show ?thesis
    using for_each_total [of "py_range 0 H ?s" "horizontal_step frames W H ?s", OF step] assms(2,3)
    by (simp add: interlace_horizontal_def new_image_ok Let_def)
qed

lemma make_mask_ok:
  assumes "0 \<le> W" "0 \<le> H" "1 \<le> N"
  shows "\<exists>m. make_mask W H S N d = Inr m"
proof -
  let ?s = "max 1 S"
  have s: "0 \<le> ?s" by simp
  have P: "?s * N \<noteq> 0" using assms(3) by simp
  have t: "\<exists>m'. for_each (\<lambda>x m. Inr (paste m slit (f x))) xs m = Inr m'" for slit f xs m
    by (rule for_each_total) simp
  show ?thesis
    using assms(1,2) s P t [of _ "\<lambda>x. (x, 0)"] t [of _ "\<lambda>y. (0, y)"]
    by (simp add: make_mask_def Let_def new_image_ok)
qed


text \<open>
  Claim C9. For every slice size S \<le> 0, both interlacers and the mask generator return
  exactly what they return for slice size 1; and they return an image, not an error,
  whenever the width and height are not negative and there is at least one frame (for
  the mask: a frame count of at least 1).
\<close>

theorem nonpositive_slice:
  assumes "S \<le> 0"
  shows "interlace_vertical frames W H S = interlace_vertical frames W H 1 \<and>
         interlace_horizontal frames W H S = interlace_horizontal frames W H 1 \<and>
         make_mask W H S N d = make_mask W H 1 N d \<and>
         (frames \<noteq> [] \<and> 0 \<le> W \<and> 0 \<le> H \<longrightarrow>
            (\<exists>out. interlace_vertical frames W H S = Inr out) \<and>
            (\<exists>out. interlace_horizontal frames W H S = Inr out)) \<and>
         (1 \<le> N \<and> 0 \<le> W \<and> 0 \<le> H \<longrightarrow> (\<exists>m. make_mask W H S N d = Inr m))"
proof -
  have v: "max 1 (min S W) = max 1 (min 1 W)" using assms by (simp add: max_def min_def)
  have h: "max 1 (min S H) = max 1 (min 1 H)" using assms by (simp add: max_def min_def)
  have m: "max 1 S = max 1 1" using assms by simp
  have 1: "interlace_vertical frames W H S = interlace_vertical frames W H 1"
    unfolding interlace_vertical_def v by simp
  have 2: "interlace_horizontal frames W H S = interlace_horizontal frames W H 1"
    unfolding interlace_horizontal_def h by simp
  have 3: "make_mask W H S N d = make_mask W H 1 N d"
    unfolding make_mask_def m by simp
  have 4: "\<exists>out. interlace_vertical frames W H S = Inr out" if "frames \<noteq> []" "0 \<le> W" "0 \<le> H"
    using interlace_vertical_result [OF that, of S] by blast
  show ?thesis
    using 1 2 3 4 interlace_horizontal_ok [of frames W H S] make_mask_ok [of W H N S d]
    by simp
qed

theorem nonpositive_slice_witness:
  "interlace_vertical
     [\<lparr>mode = RGBA, width = 2, height = 1, rows = [[(255, 0, 0, 255), (255, 0, 0, 255)]]\<rparr>,
      \<lparr>mode = RGBA, width = 2, height = 1, rows = [[(0, 255, 0, 255), (0, 255, 0, 255)]]\<rparr>]
     2 1 (- 3) =
   Inr \<lparr>mode = RGBA, width = 2, height = 1, rows = [[(255, 0, 0, 255), (0, 255, 0, 255)]]\<rparr> \<and>
   interlace_vertical
     [\<lparr>mode = RGBA, width = 2, height = 1, rows = [[(255, 0, 0, 255), (255, 0, 0, 255)]]\<rparr>,
      \<lparr>mode = RGBA, width = 2, height = 1, rows = [[(0, 255, 0, 255), (0, 255, 0, 255)]]\<rparr>]
     2 1 1 =
   Inr \<lparr>mode = RGBA, width = 2, height = 1, rows = [[(255, 0, 0, 255), (0, 255, 0, 255)]]\<rparr> \<and>
   make_mask 2 1 (- 3) 2 ''vertical'' = make_mask 2 1 1 2 ''vertical'' \<and>
   make_mask 2 1 0 2 ''vertical'' =
   Inr \<lparr>mode = RGBA, width = 2, height = 1, rows = [[(0, 0, 0, 0), (0, 0, 0, 255)]]\<rparr>"
proof -
  let ?F = "[\<lparr>mode = RGBA, width = 2, height = 1, rows = [[(255, 0, 0, 255), (255, 0, 0, 255)]]\<rparr>,
      \<lparr>mode = RGBA, width = 2, height = 1, rows = [[(0, 255, 0, 255), (0, 255, 0, 255)]]\<rparr>]"
  have v: "interlace_vertical ?F 2 1 1 =
      Inr \<lparr>mode = RGBA, width = 2, height = 1, rows = [[(255, 0, 0, 255), (0, 255, 0, 255)]]\<rparr>"
    by code_simp
  have m: "make_mask 2 1 1 2 ''vertical'' =
      Inr \<lparr>mode = RGBA, width = 2, height = 1, rows = [[(0, 0, 0, 0), (0, 0, 0, 255)]]\<rparr>"
    by code_simp
  show ?thesis
    using nonpositive_slice [of "- 3" ?F 2 1 2 "''vertical''"]
      nonpositive_slice [of 0 ?F 2 1 2 "''vertical''"] v m
    by simp
qed

end
